theory Spec2Isabelle
  imports Complex_Main "HOL-Library.AList"
begin

section \<open>The similarity clusterer of voice\_verification\_v2.py\<close>

text \<open>
  The development embeds \<^verbatim>\<open>compare_embeddings\<close> (lines 50-96 of
  \<^verbatim>\<open>voice_verification_v2.py\<close>). The directory listing together with the loaded arrays
  is a list of pairs (base name of the file, embedding); the base names of one directory
  listing are pairwise different. The registry \<^verbatim>\<open>clusters\<close> is a Python dict from cluster
  id to a set of file names; a dict iterates in insertion order, so it is an association
  list. \<^verbatim>\<open>clusters\<close> and \<^verbatim>\<open>next_cluster_id\<close> are the two local variables the scan
  mutates; they form the state that is passed along. An exception aborts the call before
  the printing loop of lines 95-96 is reached, so the call yields either an error or the
  registry that is printed.
\<close>

subsection \<open>Data\<close>

datatype error = ValueError | KeyError

type_synonym embedding = "real list"

type_synonym registry = "(nat \<times> string set) list"

record scan_state =
  clusters :: registry
  next_cluster_id :: nat

subsection \<open>The registry operations of lines 76-92\<close>

text \<open>
  \<^verbatim>\<open>next((k for k, v in clusters.items() if file in v), None)\<close>: the id of the first
  cluster, in insertion order, that has the file among its members.
\<close>

definition cluster_of :: "string \<Rightarrow> registry \<Rightarrow> nat option" where
  "cluster_of file cl = map_option fst (find (\<lambda>(k, v). file \<in> v) cl)"

text \<open>\<^verbatim>\<open>clusters[k]\<close> raises \<^verbatim>\<open>KeyError\<close> for a key that is absent.\<close>

definition getitem :: "registry \<Rightarrow> nat \<Rightarrow> error + string set" where
  "getitem cl k = (case map_of cl k of None \<Rightarrow> Inl KeyError | Some v \<Rightarrow> Inr v)"

text \<open>
  The body of \<^verbatim>\<open>if similarity_score >= threshold:\<close> (lines 74-92), on the two file
  names. Assigning to a key (\<open>AList.update\<close>) replaces the value in place when the key is
  present and appends the entry otherwise; \<^verbatim>\<open>del\<close> removes the entry.
\<close>

definition merge_pair :: "string \<Rightarrow> string \<Rightarrow> scan_state \<Rightarrow> error + scan_state" where
  "merge_pair file_i file_j s =
     (case (cluster_of file_i (clusters s), cluster_of file_j (clusters s)) of
        (None, None) \<Rightarrow>
          Inr \<lparr>clusters = AList.update (next_cluster_id s) {file_i, file_j} (clusters s),
               next_cluster_id = next_cluster_id s + 1\<rparr>
      | (Some cluster_id_i, None) \<Rightarrow>
          (case getitem (clusters s) cluster_id_i of
             Inl e \<Rightarrow> Inl e
           | Inr vi \<Rightarrow>
               Inr (s\<lparr>clusters := AList.update cluster_id_i (insert file_j vi) (clusters s)\<rparr>))
      | (None, Some cluster_id_j) \<Rightarrow>
          (case getitem (clusters s) cluster_id_j of
             Inl e \<Rightarrow> Inl e
           | Inr vj \<Rightarrow>
               Inr (s\<lparr>clusters := AList.update cluster_id_j (insert file_i vj) (clusters s)\<rparr>))
      | (Some cluster_id_i, Some cluster_id_j) \<Rightarrow>
          if cluster_id_i \<noteq> cluster_id_j then
            (case getitem (clusters s) cluster_id_i of
               Inl e \<Rightarrow> Inl e
             | Inr vi \<Rightarrow>
                 (case getitem (clusters s) cluster_id_j of
                    Inl e \<Rightarrow> Inl e
                  | Inr vj \<Rightarrow>
                      Inr (s\<lparr>clusters :=
                             AList.delete cluster_id_j
                               (AList.update cluster_id_i (vi \<union> vj) (clusters s))\<rparr>)))
          else Inr s)"

subsection \<open>The pairwise scan of lines 69-92\<close>

text \<open>
  \<^verbatim>\<open>for i in range(n): for j in range(i + 1, n)\<close> visits the index pairs in this order.
\<close>

definition pairs :: "nat \<Rightarrow> (nat \<times> nat) list" where
  "pairs n = concat (map (\<lambda>i. map (\<lambda>j. (i, j)) [i + 1..<n]) [0..<n])"

text \<open>
  The scan over a list of index pairs. The similarity function is the one imported from
  the library (line 13); it is a parameter here, and it is called for every pair, before
  the threshold is looked at. An exception it raises ends the scan.
\<close>

fun scan :: "('v \<Rightarrow> 'v \<Rightarrow> error + real) \<Rightarrow> (string \<times> 'v) list \<Rightarrow> real \<Rightarrow>
    (nat \<times> nat) list \<Rightarrow> scan_state \<Rightarrow> error + scan_state" where
  "scan sim items threshold [] s = Inr s"
| "scan sim items threshold ((i, j) # ps) s =
     (case sim (snd (items ! i)) (snd (items ! j)) of
        Inl e \<Rightarrow> Inl e
      | Inr similarity_score \<Rightarrow>
          if similarity_score \<ge> threshold then
            (case merge_pair (fst (items ! i)) (fst (items ! j)) s of
               Inl e \<Rightarrow> Inl e
             | Inr s' \<Rightarrow> scan sim items threshold ps s')
          else scan sim items threshold ps s)"

definition initial_state :: scan_state where
  "initial_state = \<lparr>clusters = [], next_cluster_id = 0\<rparr>"

definition compare_embeddings :: "('v \<Rightarrow> 'v \<Rightarrow> error + real) \<Rightarrow> (string \<times> 'v) list \<Rightarrow> real \<Rightarrow>
    error + registry" where
  "compare_embeddings sim items threshold =
     (case scan sim items threshold (pairs (length items)) initial_state of
        Inl e \<Rightarrow> Inl e
      | Inr s \<Rightarrow> Inr (clusters s))"

subsection \<open>The library's cosine similarity\<close>

text \<open>
  \<^verbatim>\<open>sklearn.metrics.pairwise.cosine_similarity\<close> on two arrays of one row each (every
  loaded array is reshaped to one row, line 64), with real numbers in place of floats.
  The library checks the two arrays first and raises \<^verbatim>\<open>ValueError\<close> when a row has no
  column or when the numbers of columns differ. It then divides each row by its Euclidean
  norm, where a norm of zero is replaced by one, and returns the dot product of the two
  scaled rows.
\<close>

definition dot :: "embedding \<Rightarrow> embedding \<Rightarrow> real" where
  "dot x y = sum_list (map (\<lambda>(a, b). a * b) (zip x y))"

definition row_norm :: "embedding \<Rightarrow> real" where
  "row_norm x = sqrt (dot x x)"

definition normalize :: "embedding \<Rightarrow> embedding" where
  "normalize x = map (\<lambda>a. a / (if row_norm x = 0 then 1 else row_norm x)) x"

definition cosine_similarity :: "embedding \<Rightarrow> embedding \<Rightarrow> error + real" where
  "cosine_similarity x y =
     (if x = [] \<or> y = [] \<or> length x \<noteq> length y then Inl ValueError
      else Inr (dot (normalize x) (normalize y)))"

subsection \<open>Notions used in the statements and proofs\<close>

definition conn :: "(string \<times> string) set \<Rightarrow> (string \<times> string) set" where
  "conn E = (E \<union> E\<inverse>)\<^sup>*"

definition reg_inv :: "string set \<Rightarrow> (string \<times> string) set \<Rightarrow> scan_state \<Rightarrow> bool" where
  "reg_inv V E s \<longleftrightarrow>
     distinct (map fst (clusters s)) \<and>
     (\<forall>k v. (k, v) \<in> set (clusters s) \<longrightarrow>
        k < next_cluster_id s \<and> finite v \<and> 2 \<le> card v \<and> v \<subseteq> V) \<and>
     (\<forall>k v k' v'. (k, v) \<in> set (clusters s) \<longrightarrow> (k', v') \<in> set (clusters s) \<longrightarrow>
        k \<noteq> k' \<longrightarrow> v \<inter> v' = {}) \<and>
     (\<forall>a b. (a, b) \<in> conn E \<longleftrightarrow>
        a = b \<or> (\<exists>k v. (k, v) \<in> set (clusters s) \<and> a \<in> v \<and> b \<in> v))"

definition matched :: "('v \<Rightarrow> 'v \<Rightarrow> error + real) \<Rightarrow> (string \<times> 'v) list \<Rightarrow> real \<Rightarrow>
    (nat \<times> nat) list \<Rightarrow> (nat \<times> nat) list" where
  "matched sim items threshold ps =
     filter (\<lambda>(i, j). case sim (snd (items ! i)) (snd (items ! j)) of
                        Inl e \<Rightarrow> False
                      | Inr similarity_score \<Rightarrow> similarity_score \<ge> threshold) ps"

definition edges :: "('v \<Rightarrow> 'v \<Rightarrow> error + real) \<Rightarrow> (string \<times> 'v) list \<Rightarrow> real \<Rightarrow>
    (nat \<times> nat) list \<Rightarrow> (string \<times> string) set" where
  "edges sim items threshold ps =
     set (map (\<lambda>(i, j). (fst (items ! i), fst (items ! j))) (matched sim items threshold ps))"

definition state_after :: "('v \<Rightarrow> 'v \<Rightarrow> error + real) \<Rightarrow> (string \<times> 'v) list \<Rightarrow> real \<Rightarrow> nat \<Rightarrow>
    error + scan_state" where
  "state_after sim items threshold m =
     scan sim items threshold (take m (pairs (length items))) initial_state"

definition scenario_items :: "(string \<times> nat) list" where
  "scenario_items = [(''a.npy'', 0), (''b.npy'', 1), (''c.npy'', 2), (''d.npy'', 3)]"

definition scenario_sim :: "nat \<Rightarrow> nat \<Rightarrow> error + real" where
  "scenario_sim u v =
     Inr (if (u, v) = (0, 1) then 9 / 10 else if (u, v) = (0, 2) then 5 / 100
          else if (u, v) = (1, 2) then 7 / 10 else 0)"

definition component :: "string set \<Rightarrow> (string \<times> string) set \<Rightarrow> string \<Rightarrow> string set" where
  "component V E x = {y \<in> V. (x, y) \<in> conn E}"

definition components :: "string set \<Rightarrow> (string \<times> string) set \<Rightarrow> string set set" where
  "components V E = {component V E x | x. x \<in> V}"

definition similar :: "('v \<Rightarrow> 'v \<Rightarrow> error + real) \<Rightarrow> (string \<times> 'v) list \<Rightarrow> real \<Rightarrow>
    (string \<times> string) set" where
  "similar sim items threshold = edges sim items threshold (pairs (length items))"

section \<open>Properties\<close>

subsection \<open>Fewer than two items\<close>

lemma pairs_0: "pairs 0 = []"
  by (simp add: pairs_def)

lemma pairs_1: "pairs (Suc 0) = []"
  by (simp add: pairs_def)

text \<open>
  C7: an empty input yields the empty registry, and so does an input of exactly one item,
  as no pair exists; the similarity function is never called.
\<close>

theorem empty_and_single_input:
  "compare_embeddings sim [] threshold = Inr [] \<and>
   compare_embeddings sim [item] threshold = Inr []"
  by (simp add: compare_embeddings_def pairs_0 pairs_1 initial_state_def)

lemma cluster_of_SomeD:
  "cluster_of f cl = Some k \<Longrightarrow> \<exists>v. (k, v) \<in> set cl \<and> f \<in> v"
  by (induction cl) (auto simp: cluster_of_def split: if_splits)

lemma cluster_of_NoneD:
  "cluster_of f cl = None \<Longrightarrow> (k, v) \<in> set cl \<Longrightarrow> f \<notin> v"
  by (auto simp: cluster_of_def find_None_iff)

lemma cluster_of_None_iff:
  "cluster_of f cl = None \<longleftrightarrow> (\<forall>(k, v) \<in> set cl. f \<notin> v)"
  by (auto simp: cluster_of_def find_None_iff)

lemma getitem_present:
  "(k, v) \<in> set cl \<Longrightarrow> \<exists>w. getitem cl k = Inr w"
  by (cases "map_of cl k") (auto simp: getitem_def map_of_eq_None_iff image_iff)

lemma getitem_distinct:
  "distinct (map fst cl) \<Longrightarrow> (k, v) \<in> set cl \<Longrightarrow> getitem cl k = Inr v"
  by (simp add: getitem_def)

lemma merge_pair_total: "\<exists>s'. merge_pair x y s = Inr s'"
proof -
  have g: "\<And>f k. cluster_of f (clusters s) = Some k \<Longrightarrow> \<exists>w. getitem (clusters s) k = Inr w"
    using cluster_of_SomeD getitem_present by blast
  show ?thesis
  proof (cases "cluster_of x (clusters s)")
    case None
    then show ?thesis
      using g[of y] by (cases "cluster_of y (clusters s)") (auto simp: merge_pair_def)
  next
    case (Some a)
    then show ?thesis
      using g[of x] g[of y] by (cases "cluster_of y (clusters s)") (auto simp: merge_pair_def)
  qed
qed

lemma conn_refl: "(a, a) \<in> conn E" by (simp add: conn_def)
lemma conn_sym: "(a, b) \<in> conn E \<Longrightarrow> (b, a) \<in> conn E"
  unfolding conn_def
  by (metis converse_Un converse_converse rtrancl_converseD sup_commute)
lemma conn_trans: "(a, b) \<in> conn E \<Longrightarrow> (b, c) \<in> conn E \<Longrightarrow> (a, c) \<in> conn E"
  unfolding conn_def by simp
lemma conn_edge: "(a, b) \<in> E \<Longrightarrow> (a, b) \<in> conn E"
  unfolding conn_def by blast
lemma conn_mono: "E \<subseteq> F \<Longrightarrow> conn E \<subseteq> conn F"
  unfolding conn_def by (intro rtrancl_mono) blast
lemma conn_least:
  assumes "E \<subseteq> S" "\<And>a. (a, a) \<in> S" "\<And>a b. (a, b) \<in> S \<Longrightarrow> (b, a) \<in> S"
    "\<And>a b c. (a, b) \<in> S \<Longrightarrow> (b, c) \<in> S \<Longrightarrow> (a, c) \<in> S"
  shows "conn E \<subseteq> S"
proof
  fix p assume "p \<in> conn E"
  then obtain a b where p: "p = (a, b)" and "(a, b) \<in> (E \<union> E\<inverse>)\<^sup>*"
    by (cases p) (auto simp: conn_def)
  from this(2) have "(a, b) \<in> S"
  proof (induction rule: rtrancl_induct)
    case base
    show ?case by (rule assms(2))
  next
    case (step y z)
    from step(2) have "(y, z) \<in> S" using assms(1,3) by blast
    with step(3) show ?case using assms(4) by blast
  qed
  with p show "p \<in> S" by simp
qed

lemma conn_insert_iff:
  "(a, b) \<in> conn (insert (x, y) E) \<longleftrightarrow>
     (a, b) \<in> conn E \<or> ((a, x) \<in> conn E \<and> (y, b) \<in> conn E) \<or>
     ((a, y) \<in> conn E \<and> (x, b) \<in> conn E)"
  (is "?L \<longleftrightarrow> ?R")
proof
  let ?S = "{(a, b). (a, b) \<in> conn E \<or> ((a, x) \<in> conn E \<and> (y, b) \<in> conn E) \<or>
     ((a, y) \<in> conn E \<and> (x, b) \<in> conn E)}"
  note s = conn_sym[of _ _ E] and t = conn_trans[of _ _ E]
  assume l: ?L
  have "conn (insert (x, y) E) \<subseteq> ?S"
  proof (rule conn_least)
    show "insert (x, y) E \<subseteq> ?S"
    proof
      fix p assume "p \<in> insert (x, y) E"
      then consider "p = (x, y)" | "p \<in> E" by blast
      then show "p \<in> ?S"
      proof cases
        case 1
        then show ?thesis by (simp add: conn_refl)
      next
        case 2
        then have "p \<in> conn E" by (cases p) (simp add: conn_edge)
        then show ?thesis by (cases p) simp
      qed
    qed
  next
    fix a show "(a, a) \<in> ?S" by (simp add: conn_refl)
  next
    fix a b assume "(a, b) \<in> ?S"
    then consider "(a, b) \<in> conn E" | "(a, x) \<in> conn E" "(y, b) \<in> conn E"
      | "(a, y) \<in> conn E" "(x, b) \<in> conn E" by blast
    then show "(b, a) \<in> ?S"
    proof cases
      case 1
      then show ?thesis by (simp add: s)
    next
      case 2
      then show ?thesis by (simp add: s)
    next
      case 3
      then show ?thesis by (simp add: s)
    qed
  next
    fix a b c assume ab: "(a, b) \<in> ?S" and bc: "(b, c) \<in> ?S"
    from bc have bc': "(b, c) \<in> conn E \<or> ((b, x) \<in> conn E \<and> (y, c) \<in> conn E) \<or>
       ((b, y) \<in> conn E \<and> (x, c) \<in> conn E)" by simp
    from ab consider "(a, b) \<in> conn E" | "(a, x) \<in> conn E" "(y, b) \<in> conn E"
      | "(a, y) \<in> conn E" "(x, b) \<in> conn E" by blast
    then show "(a, c) \<in> ?S"
    proof cases
      case 1
      from bc' consider "(b, c) \<in> conn E" | "(b, x) \<in> conn E" "(y, c) \<in> conn E"
        | "(b, y) \<in> conn E" "(x, c) \<in> conn E" by blast
      then show ?thesis
      proof cases
        case 1
        then show ?thesis by (simp add: t[OF \<open>(a, b) \<in> conn E\<close>])
      next
        case 2
        then show ?thesis by (simp add: t[OF \<open>(a, b) \<in> conn E\<close>])
      next
        case 3
        then show ?thesis by (simp add: t[OF \<open>(a, b) \<in> conn E\<close>])
      qed
    next
      case 2
      note o = this
      from bc' consider "(b, c) \<in> conn E" | "(b, x) \<in> conn E" "(y, c) \<in> conn E"
        | "(b, y) \<in> conn E" "(x, c) \<in> conn E" by blast
      then show ?thesis
      proof cases
        case 1
        then show ?thesis by (simp add: o(1) t[OF o(2)])
      next
        case 2
        have "(a, c) \<in> conn E"
          by (rule t[OF o(1) s[OF t[OF s[OF 2(2)] t[OF o(2) 2(1)]]]])
        then show ?thesis by simp
      next
        case 3
        then show ?thesis by (simp add: t[OF o(1)])
      qed
    next
      case 3
      note o = this
      from bc' consider "(b, c) \<in> conn E" | "(b, x) \<in> conn E" "(y, c) \<in> conn E"
        | "(b, y) \<in> conn E" "(x, c) \<in> conn E" by blast
      then show ?thesis
      proof cases
        case 1
        then show ?thesis by (simp add: o(1) t[OF o(2)])
      next
        case 2
        then show ?thesis by (simp add: t[OF o(1)])
      next
        case 3
        have "(a, c) \<in> conn E"
          by (rule t[OF o(1) s[OF t[OF s[OF 3(2)] t[OF o(2) 3(1)]]]])
        then show ?thesis by simp
      qed
    qed
  qed
  with l show ?R by blast
next
  assume r: ?R
  let ?F = "insert (x, y) E"
  have m: "\<And>p q. (p, q) \<in> conn E \<Longrightarrow> (p, q) \<in> conn ?F" using conn_mono[of E ?F] by blast
  have e: "(x, y) \<in> conn ?F" by (rule conn_edge) simp
  have e': "(y, x) \<in> conn ?F" using e by (rule conn_sym)
  from r consider "(a, b) \<in> conn E" | "(a, x) \<in> conn E" "(y, b) \<in> conn E"
      | "(a, y) \<in> conn E" "(x, b) \<in> conn E" by blast
  then show ?L
  proof cases
    case 1 then show ?thesis by (rule m)
  next
    case 2
    show ?thesis by (rule conn_trans[OF conn_trans[OF m[OF 2(1)] e] m[OF 2(2)]])
  next
    case 3
    show ?thesis by (rule conn_trans[OF conn_trans[OF m[OF 3(1)] e'] m[OF 3(2)]])
  qed
qed

lemma mem_update:
  assumes d: "distinct (map fst cl)"
  shows "(k', v') \<in> set (AList.update k v cl) \<longleftrightarrow>
    (if k' = k then v' = v else (k', v') \<in> set cl)"
proof -
  from d have "distinct (map fst (AList.update k v cl))" by (simp add: distinct_update)
  then have "(k', v') \<in> set (AList.update k v cl) \<longleftrightarrow> map_of (AList.update k v cl) k' = Some v'"
    by simp
  also have "\<dots> \<longleftrightarrow> (if k' = k then v' = v else (k', v') \<in> set cl)"
    using d by (auto simp: update_conv')
  finally show ?thesis .
qed

lemma mem_delete:
  "(k', v') \<in> set (AList.delete k cl) \<longleftrightarrow> k' \<noteq> k \<and> (k', v') \<in> set cl"
  by (auto simp: AList.delete_eq)

lemma same_key:
  "distinct (map fst cl) \<Longrightarrow> (k, v) \<in> set cl \<Longrightarrow> (k, v') \<in> set cl \<Longrightarrow> v = v'"
  by (metis map_of_is_SomeI option.inject)

lemma reg_inv_owner:
  assumes "reg_inv V E s" "(k, v) \<in> set (clusters s)" "(k', v') \<in> set (clusters s)"
    "x \<in> v" "x \<in> v'"
  shows "k = k' \<and> v = v'"
proof -
  have "k \<noteq> k' \<Longrightarrow> v \<inter> v' = {}"
    using assms(1,2,3) unfolding reg_inv_def by meson
  with assms(4,5) have k: "k = k'" by fast
  have d: "distinct (map fst (clusters s))" using assms(1) by (simp add: reg_inv_def)
  have "v = v'" using same_key[OF d assms(2)] assms(3) k by simp
  with k show ?thesis by simp
qed

lemma reg_invI:
  assumes "clusters s = cl" "next_cluster_id s = n"
    and "distinct (map fst cl)"
    and "\<And>k v. (k, v) \<in> set cl \<Longrightarrow> k < n \<and> finite v \<and> 2 \<le> card v \<and> v \<subseteq> V"
    and "\<And>k v k' v'. (k, v) \<in> set cl \<Longrightarrow> (k', v') \<in> set cl \<Longrightarrow> k \<noteq> k' \<Longrightarrow> v \<inter> v' = {}"
    and "\<And>a b. (a, b) \<in> conn E \<longleftrightarrow>
        a = b \<or> (\<exists>k v. (k, v) \<in> set cl \<and> a \<in> v \<and> b \<in> v)"
  shows "reg_inv V E s"
  unfolding reg_inv_def assms(1,2)
proof (intro conjI allI impI)
  show "distinct (map fst cl)" by (rule assms(3))
next
  fix k v assume "(k, v) \<in> set cl"
  from assms(4)[OF this]
  show "k < n" "finite v" "2 \<le> card v" "v \<subseteq> V" by simp_all
next
  fix k v k' v' assume "(k, v) \<in> set cl" "(k', v') \<in> set cl" "k \<noteq> k'"
  then show "v \<inter> v' = {}" by (rule assms(5))
next
  fix a b
  show "((a, b) \<in> conn E) = (a = b \<or> (\<exists>k v. (k, v) \<in> set cl \<and> a \<in> v \<and> b \<in> v))"
    by (rule assms(6))
qed

lemma step_new:
  assumes inv: "reg_inv V E s"
    and nx: "cluster_of x (clusters s) = None" and ny: "cluster_of y (clusters s) = None"
    and xy: "x \<in> V" "y \<in> V" "x \<noteq> y"
  shows "reg_inv V (insert (x, y) E)
     \<lparr>clusters = AList.update (next_cluster_id s) {x, y} (clusters s),
      next_cluster_id = next_cluster_id s + 1\<rparr>"
proof -
  let ?cl = "clusters s" and ?n = "next_cluster_id s"
  let ?cl' = "AList.update ?n {x, y} ?cl"
  define inC where "inC = (\<lambda>a b. \<exists>k v. (k, v) \<in> set ?cl \<and> a \<in> v \<and> b \<in> v)"
  define inC' where "inC' = (\<lambda>a b. \<exists>k v. (k, v) \<in> set ?cl' \<and> a \<in> v \<and> b \<in> v)"
  from inv have d: "distinct (map fst ?cl)" by (simp add: reg_inv_def)
  from inv have b: "\<And>k v. (k, v) \<in> set ?cl \<Longrightarrow> k < ?n \<and> finite v \<and> 2 \<le> card v \<and> v \<subseteq> V"
    by (simp add: reg_inv_def)
  from inv have dj: "\<And>k v k' v'. (k, v) \<in> set ?cl \<Longrightarrow> (k', v') \<in> set ?cl \<Longrightarrow> k \<noteq> k'
      \<Longrightarrow> v \<inter> v' = {}"
    by (simp add: reg_inv_def)
  from inv have c: "\<And>a b. (a, b) \<in> conn E \<longleftrightarrow> a = b \<or> inC a b"
    by (simp add: reg_inv_def inC_def)
  have fx: "\<And>k v. (k, v) \<in> set ?cl \<Longrightarrow> x \<notin> v" using nx by (rule cluster_of_NoneD)
  have fy: "\<And>k v. (k, v) \<in> set ?cl \<Longrightarrow> y \<notin> v" using ny by (rule cluster_of_NoneD)
  have no: "\<And>a. \<not> inC a x" "\<And>a. \<not> inC x a" "\<And>a. \<not> inC a y" "\<And>a. \<not> inC y a"
    unfolding inC_def using fx fy by blast+
  have nk: "(?n, v) \<notin> set ?cl" for v using b[of ?n v] by blast
  have m: "(k, v) \<in> set ?cl' \<longleftrightarrow> (k = ?n \<and> v = {x, y}) \<or> (k, v) \<in> set ?cl" for k v
    using nk[of v] by (cases "k = ?n") (simp_all add: mem_update[OF d])
  have 1: "distinct (map fst ?cl')" using d by (simp add: distinct_update)
  have 2: "k < ?n + 1 \<and> finite v \<and> 2 \<le> card v \<and> v \<subseteq> V" if "(k, v) \<in> set ?cl'" for k v
  proof (cases "(k, v) \<in> set ?cl")
    case True
    from b[OF this] show ?thesis by simp
  next
    case False
    with that have "k = ?n" "v = {x, y}" by (simp_all add: m)
    then show ?thesis using xy by simp
  qed
  have 3: "v \<inter> v' = {}" if h: "(k, v) \<in> set ?cl'" "(k', v') \<in> set ?cl'" "k \<noteq> k'" for k v k' v'
  proof -
    consider "(k, v) \<in> set ?cl" "(k', v') \<in> set ?cl"
      | "v = {x, y}" "(k', v') \<in> set ?cl" | "(k, v) \<in> set ?cl" "v' = {x, y}"
      using h(1,2)[unfolded m] h(3) by fastforce
    then show ?thesis
    proof cases
      case 1
      then show ?thesis using h(3) by (rule dj)
    next
      case 2
      then show ?thesis using fx[of k' v'] fy[of k' v'] by simp
    next
      case 3
      then show ?thesis using fx[of k v] fy[of k v] by simp
    qed
  qed
  have i': "inC' a b \<longleftrightarrow> inC a b \<or> ((a = x \<or> a = y) \<and> (b = x \<or> b = y))" for a b
    unfolding inC'_def inC_def m by auto
  have 4: "(a, b) \<in> conn (insert (x, y) E) \<longleftrightarrow> a = b \<or> inC' a b" for a b
    unfolding conn_insert_iff c i' by (auto simp: no)
  show ?thesis
    by (rule reg_invI[where cl = ?cl' and n = "?n + 1", OF _ _ 1 2 3 4[unfolded inC'_def]])
      simp_all
qed

lemma reg_invD:
  assumes "reg_inv V E s"
  shows "distinct (map fst (clusters s))"
    and "\<And>k v. (k, v) \<in> set (clusters s) \<Longrightarrow>
        k < next_cluster_id s \<and> finite v \<and> 2 \<le> card v \<and> v \<subseteq> V"
    and "\<And>k v k' v'. (k, v) \<in> set (clusters s) \<Longrightarrow> (k', v') \<in> set (clusters s) \<Longrightarrow>
        k \<noteq> k' \<Longrightarrow> v \<inter> v' = {}"
    and "\<And>a b. (a, b) \<in> conn E \<longleftrightarrow>
        a = b \<or> (\<exists>k v. (k, v) \<in> set (clusters s) \<and> a \<in> v \<and> b \<in> v)"
  using assms by (simp_all add: reg_inv_def)

lemma reg_inv_cong: "conn E = conn E' \<Longrightarrow> reg_inv V E s = reg_inv V E' s"
  by (simp add: reg_inv_def)

lemma conn_insert_swap: "conn (insert (x, y) E) = conn (insert (y, x) E)"
proof -
  have "(a, b) \<in> conn (insert (x, y) E) \<longleftrightarrow> (a, b) \<in> conn (insert (y, x) E)" for a b
    unfolding conn_insert_iff by argo
  then show ?thesis by (simp add: set_eq_iff)
qed

lemma conn_insert_absorb:
  assumes "(x, y) \<in> conn E"
  shows "conn (insert (x, y) E) = conn E"
proof -
  have "(a, b) \<in> conn (insert (x, y) E) \<longleftrightarrow> (a, b) \<in> conn E" for a b
  proof -
    have 1: "(a, x) \<in> conn E \<Longrightarrow> (y, b) \<in> conn E \<Longrightarrow> (a, b) \<in> conn E"
      by (rule conn_trans[OF conn_trans[OF _ assms]])
    have 2: "(a, y) \<in> conn E \<Longrightarrow> (x, b) \<in> conn E \<Longrightarrow> (a, b) \<in> conn E"
      by (rule conn_trans[OF conn_trans[OF _ conn_sym[OF assms]]])
    show ?thesis unfolding conn_insert_iff using 1 2 by argo
  qed
  then show ?thesis by (simp add: set_eq_iff)
qed

lemma step_same:
  assumes inv: "reg_inv V E s" and i: "(ci, vi) \<in> set (clusters s)" "x \<in> vi" "y \<in> vi"
  shows "reg_inv V (insert (x, y) E) s"
proof -
  have "(x, y) \<in> conn E" unfolding reg_invD(4)[OF inv] using i by fast
  then show ?thesis using inv reg_inv_cong[OF conn_insert_absorb] by simp
qed

lemma step_add:
  assumes inv: "reg_inv V E s"
    and i: "(ci, vi) \<in> set (clusters s)" "x \<in> vi"
    and ny: "cluster_of y (clusters s) = None" and yV: "y \<in> V"
  shows "reg_inv V (insert (x, y) E) (s\<lparr>clusters := AList.update ci (insert y vi) (clusters s)\<rparr>)"
proof -
  let ?cl = "clusters s" and ?n = "next_cluster_id s"
  let ?cl' = "AList.update ci (insert y vi) ?cl"
  define inC where "inC = (\<lambda>a b. \<exists>k v. (k, v) \<in> set ?cl \<and> a \<in> v \<and> b \<in> v)"
  define inCo where "inCo = (\<lambda>a b. \<exists>k v. k \<noteq> ci \<and> (k, v) \<in> set ?cl \<and> a \<in> v \<and> b \<in> v)"
  define inC' where "inC' = (\<lambda>a b. \<exists>k v. (k, v) \<in> set ?cl' \<and> a \<in> v \<and> b \<in> v)"
  note d = reg_invD(1)[OF inv] and b = reg_invD(2)[OF inv] and dj = reg_invD(3)[OF inv]
  have c: "\<And>a b. (a, b) \<in> conn E \<longleftrightarrow> a = b \<or> inC a b"
    by (simp add: reg_invD(4)[OF inv] inC_def)
  have fy: "\<And>k v. (k, v) \<in> set ?cl \<Longrightarrow> y \<notin> v" using ny by (rule cluster_of_NoneD)
  have ci: "v = vi" if "(ci, v) \<in> set ?cl" for v by (rule same_key[OF d that i(1)])
  have m: "(k, v) \<in> set ?cl' \<longleftrightarrow> (k = ci \<and> v = insert y vi) \<or> (k \<noteq> ci \<and> (k, v) \<in> set ?cl)"
    for k v by (cases "k = ci") (simp_all add: mem_update[OF d])
  have 1: "distinct (map fst ?cl')" using d by (simp add: distinct_update)
  have bi: "ci < ?n \<and> finite vi \<and> 2 \<le> card vi \<and> vi \<subseteq> V" by (rule b[OF i(1)])
  have "card vi \<le> card (insert y vi)" using bi by (simp add: card_insert_le)
  then have bn: "ci < ?n \<and> finite (insert y vi) \<and> 2 \<le> card (insert y vi) \<and> insert y vi \<subseteq> V"
    using bi yV by simp
  have 2: "k < ?n \<and> finite v \<and> 2 \<le> card v \<and> v \<subseteq> V" if h: "(k, v) \<in> set ?cl'" for k v
  proof (cases "k = ci")
    case True
    with h have "v = insert y vi" by (simp add: m)
    with True bn show ?thesis by simp
  next
    case False
    with h have "(k, v) \<in> set ?cl" by (simp add: m)
    then show ?thesis by (rule b)
  qed
  have dn: "insert y vi \<inter> v = {}" if "(k, v) \<in> set ?cl" "k \<noteq> ci" for k v
  proof -
    have "vi \<inter> v = {}" using i(1) that(1) that(2)[symmetric] by (rule dj)
    then show ?thesis using fy[OF that(1)] by simp
  qed
  have 3: "v \<inter> v' = {}" if h: "(k, v) \<in> set ?cl'" "(k', v') \<in> set ?cl'" "k \<noteq> k'" for k v k' v'
  proof -
    consider "k \<noteq> ci" "k' \<noteq> ci" | "k = ci" "k' \<noteq> ci" | "k \<noteq> ci" "k' = ci"
      using h(3) by fast
    then show ?thesis
    proof cases
      case 1
      with h have "(k, v) \<in> set ?cl" "(k', v') \<in> set ?cl" by (simp_all add: m)
      then show ?thesis using h(3) by (rule dj)
    next
      case 2
      with h have "v = insert y vi" "(k', v') \<in> set ?cl" by (simp_all add: m)
      then show ?thesis using dn[of k' v'] 2(2) by simp
    next
      case 3
      with h have "v' = insert y vi" "(k, v) \<in> set ?cl" by (simp_all add: m)
      then show ?thesis using dn[of k v] 3(1) by (simp add: Int_commute)
    qed
  qed
  have own: "v = vi" if "(k, v) \<in> set ?cl" "x \<in> v" for k v
    using reg_inv_owner[OF inv that(1) i(1) that(2) i(2)] by simp
  have ox: "inC a x \<longleftrightarrow> a \<in> vi" "inC x a \<longleftrightarrow> a \<in> vi" for a
    unfolding inC_def using own i by metis+
  have noy: "\<not> inC a y" "\<not> inC y a" for a
    unfolding inC_def using fy by fast+
  have io: "inC a b \<longleftrightarrow> inCo a b \<or> (a \<in> vi \<and> b \<in> vi)" for a b
    unfolding inC_def inCo_def using ci i(1) by metis
  have i': "inC' a b \<longleftrightarrow> inCo a b \<or> ((a = y \<or> a \<in> vi) \<and> (b = y \<or> b \<in> vi))" for a b
    unfolding inC'_def inCo_def m by auto
  have 4: "(a, b) \<in> conn (insert (x, y) E) \<longleftrightarrow> a = b \<or> inC' a b" for a b
  proof -
    have "(a, b) \<in> conn (insert (x, y) E) \<longleftrightarrow>
        a = b \<or> inC a b \<or> (a \<in> vi \<and> b = y) \<or> (a = y \<and> b \<in> vi)"
      unfolding conn_insert_iff c using i(2) by (auto simp: ox noy)
    then show ?thesis unfolding io i' by auto
  qed
  show ?thesis
    by (rule reg_invI[where cl = ?cl' and n = "?n", OF _ _ 1 2 3 4[unfolded inC'_def]])
      simp_all
qed

lemma step_merge:
  assumes inv: "reg_inv V E s"
    and i: "(ci, vi) \<in> set (clusters s)" "x \<in> vi"
    and j: "(cj, vj) \<in> set (clusters s)" "y \<in> vj"
    and ne: "ci \<noteq> cj"
  shows "reg_inv V (insert (x, y) E)
     (s\<lparr>clusters := AList.delete cj (AList.update ci (vi \<union> vj) (clusters s))\<rparr>)"
proof -
  let ?cl = "clusters s" and ?n = "next_cluster_id s"
  let ?cl' = "AList.delete cj (AList.update ci (vi \<union> vj) ?cl)"
  define inC where "inC = (\<lambda>a b. \<exists>k v. (k, v) \<in> set ?cl \<and> a \<in> v \<and> b \<in> v)"
  define inCo where
    "inCo = (\<lambda>a b. \<exists>k v. k \<noteq> ci \<and> k \<noteq> cj \<and> (k, v) \<in> set ?cl \<and> a \<in> v \<and> b \<in> v)"
  define inC' where "inC' = (\<lambda>a b. \<exists>k v. (k, v) \<in> set ?cl' \<and> a \<in> v \<and> b \<in> v)"
  note d = reg_invD(1)[OF inv] and b = reg_invD(2)[OF inv] and dj = reg_invD(3)[OF inv]
  have c: "\<And>a b. (a, b) \<in> conn E \<longleftrightarrow> a = b \<or> inC a b"
    by (simp add: reg_invD(4)[OF inv] inC_def)
  have ci: "v = vi" if "(ci, v) \<in> set ?cl" for v by (rule same_key[OF d that i(1)])
  have cj: "v = vj" if "(cj, v) \<in> set ?cl" for v by (rule same_key[OF d that j(1)])
  have m: "(k, v) \<in> set ?cl' \<longleftrightarrow>
      (k = ci \<and> v = vi \<union> vj) \<or> (k \<noteq> ci \<and> k \<noteq> cj \<and> (k, v) \<in> set ?cl)" for k v
    using ne by (cases "k = ci") (auto simp: mem_delete mem_update[OF d])
  have 1: "distinct (map fst ?cl')" using d by (simp add: distinct_update distinct_delete)
  have bi: "ci < ?n \<and> finite vi \<and> 2 \<le> card vi \<and> vi \<subseteq> V" by (rule b[OF i(1)])
  have bj: "cj < ?n \<and> finite vj \<and> 2 \<le> card vj \<and> vj \<subseteq> V" by (rule b[OF j(1)])
  have "card vi \<le> card (vi \<union> vj)" using bi bj by (simp add: card_mono)
  then have bn: "ci < ?n \<and> finite (vi \<union> vj) \<and> 2 \<le> card (vi \<union> vj) \<and> vi \<union> vj \<subseteq> V"
    using bi bj by simp
  have 2: "k < ?n \<and> finite v \<and> 2 \<le> card v \<and> v \<subseteq> V" if h: "(k, v) \<in> set ?cl'" for k v
  proof (cases "k = ci")
    case True
    with h have "v = vi \<union> vj" by (simp add: m)
    with True bn show ?thesis by simp
  next
    case False
    with h have "(k, v) \<in> set ?cl" by (simp add: m)
    then show ?thesis by (rule b)
  qed
  have dn: "(vi \<union> vj) \<inter> v = {}" if "(k, v) \<in> set ?cl" "k \<noteq> ci" "k \<noteq> cj" for k v
  proof -
    have "vi \<inter> v = {}" using i(1) that(1) that(2)[symmetric] by (rule dj)
    moreover have "vj \<inter> v = {}" using j(1) that(1) that(3)[symmetric] by (rule dj)
    ultimately show ?thesis by (simp add: Int_Un_distrib2)
  qed
  have 3: "v \<inter> v' = {}" if h: "(k, v) \<in> set ?cl'" "(k', v') \<in> set ?cl'" "k \<noteq> k'" for k v k' v'
  proof -
    consider "k \<noteq> ci" "k' \<noteq> ci" | "k = ci" "k' \<noteq> ci" | "k \<noteq> ci" "k' = ci"
      using h(3) by fast
    then show ?thesis
    proof cases
      case 1
      with h have "(k, v) \<in> set ?cl" "(k', v') \<in> set ?cl" by (simp_all add: m)
      then show ?thesis using h(3) by (rule dj)
    next
      case 2
      with h have "v = vi \<union> vj" "(k', v') \<in> set ?cl" "k' \<noteq> cj" by (simp_all add: m)
      then show ?thesis using dn[of k' v'] 2(2) by simp
    next
      case 3
      with h have "v' = vi \<union> vj" "(k, v) \<in> set ?cl" "k \<noteq> cj" by (simp_all add: m)
      then show ?thesis using dn[of k v] 3(1) by (simp add: Int_commute)
    qed
  qed
  have ownx: "v = vi" if "(k, v) \<in> set ?cl" "x \<in> v" for k v
    using reg_inv_owner[OF inv that(1) i(1) that(2) i(2)] by simp
  have owny: "v = vj" if "(k, v) \<in> set ?cl" "y \<in> v" for k v
    using reg_inv_owner[OF inv that(1) j(1) that(2) j(2)] by simp
  have ox: "inC a x \<longleftrightarrow> a \<in> vi" "inC x a \<longleftrightarrow> a \<in> vi" for a
    unfolding inC_def using ownx i by metis+
  have oy: "inC a y \<longleftrightarrow> a \<in> vj" "inC y a \<longleftrightarrow> a \<in> vj" for a
    unfolding inC_def using owny j by metis+
  have io: "inC a b \<longleftrightarrow> inCo a b \<or> (a \<in> vi \<and> b \<in> vi) \<or> (a \<in> vj \<and> b \<in> vj)" for a b
  proof
    assume "inC a b"
    then obtain k v where kv: "(k, v) \<in> set ?cl" "a \<in> v" "b \<in> v"
      unfolding inC_def by fast
    consider "k = ci" | "k = cj" | "k \<noteq> ci" "k \<noteq> cj" by fast
    then show "inCo a b \<or> (a \<in> vi \<and> b \<in> vi) \<or> (a \<in> vj \<and> b \<in> vj)"
    proof cases
      case 1
      then have "v = vi" using kv(1) ci by simp
      then show ?thesis using kv by simp
    next
      case 2
      then have "v = vj" using kv(1) cj by simp
      then show ?thesis using kv by simp
    next
      case 3
      then have "inCo a b" unfolding inCo_def using kv by fast
      then show ?thesis by simp
    qed
  next
    assume "inCo a b \<or> (a \<in> vi \<and> b \<in> vi) \<or> (a \<in> vj \<and> b \<in> vj)"
    then show "inC a b" unfolding inC_def inCo_def using i(1) j(1) by fast
  qed
  have i': "inC' a b \<longleftrightarrow> inCo a b \<or> ((a \<in> vi \<or> a \<in> vj) \<and> (b \<in> vi \<or> b \<in> vj))" for a b
    unfolding inC'_def inCo_def m by auto
  have 4: "(a, b) \<in> conn (insert (x, y) E) \<longleftrightarrow> a = b \<or> inC' a b" for a b
  proof -
    have "(a, b) \<in> conn (insert (x, y) E) \<longleftrightarrow>
        a = b \<or> inC a b \<or> (a \<in> vi \<and> b \<in> vj) \<or> (a \<in> vj \<and> b \<in> vi)"
      unfolding conn_insert_iff c using i(2) j(2) by (auto simp: ox oy)
    then show ?thesis unfolding io i' by auto
  qed
  show ?thesis
    by (rule reg_invI[where cl = ?cl' and n = "?n", OF _ _ 1 2 3 4[unfolded inC'_def]])
      simp_all
qed

lemma cluster_of_owner:
  assumes "distinct (map fst cl)" "cluster_of f cl = Some k"
  shows "\<exists>v. (k, v) \<in> set cl \<and> f \<in> v \<and> getitem cl k = Inr v"
proof -
  from cluster_of_SomeD[OF assms(2)] obtain v where "(k, v) \<in> set cl" "f \<in> v" by fast
  then show ?thesis using getitem_distinct[OF assms(1)] by fast
qed

lemma merge_pair_inv:
  assumes inv: "reg_inv V E s" and xy: "x \<in> V" "y \<in> V" "x \<noteq> y"
  shows "\<exists>s'. merge_pair x y s = Inr s' \<and> reg_inv V (insert (x, y) E) s'"
proof -
  note d = reg_invD(1)[OF inv]
  show ?thesis
  proof (cases "cluster_of x (clusters s)")
    case nx: None
    show ?thesis
    proof (cases "cluster_of y (clusters s)")
      case ny: None
      show ?thesis using step_new[OF inv nx ny xy] by (simp add: merge_pair_def nx ny)
    next
      case (Some cj)
      from cluster_of_owner[OF d this] obtain vj where
        j: "(cj, vj) \<in> set (clusters s)" "y \<in> vj" "getitem (clusters s) cj = Inr vj" by fast
      have "reg_inv V (insert (y, x) E) (s\<lparr>clusters := AList.update cj (insert x vj) (clusters s)\<rparr>)"
        by (rule step_add[OF inv j(1,2) nx xy(1)])
      then show ?thesis
        by (simp add: merge_pair_def nx Some j(3) reg_inv_cong[OF conn_insert_swap[of x y]])
    qed
  next
    case sx: (Some ci)
    from cluster_of_owner[OF d this] obtain vi where
      i: "(ci, vi) \<in> set (clusters s)" "x \<in> vi" "getitem (clusters s) ci = Inr vi" by fast
    show ?thesis
    proof (cases "cluster_of y (clusters s)")
      case ny: None
      show ?thesis using step_add[OF inv i(1,2) ny xy(2)] by (simp add: merge_pair_def sx ny i(3))
    next
      case (Some cj)
      from cluster_of_owner[OF d this] obtain vj where
        j: "(cj, vj) \<in> set (clusters s)" "y \<in> vj" "getitem (clusters s) cj = Inr vj" by fast
      show ?thesis
      proof (cases "ci = cj")
        case True
        then have "vj = vi" using same_key[OF d j(1)] i(1) by simp
        then show ?thesis using step_same[OF inv i(1,2)] j(2) True
          by (simp add: merge_pair_def sx Some)
      next
        case False
        then show ?thesis using step_merge[OF inv i(1,2) j(1,2) False]
          by (simp add: merge_pair_def sx Some i(3) j(3))
      qed
    qed
  qed
qed

lemma edges_Nil: "edges sim items t [] = {}"
  by (simp add: edges_def matched_def)

lemma edges_Cons_match:
  "sim (snd (items ! i)) (snd (items ! j)) = Inr sc \<Longrightarrow> t \<le> sc \<Longrightarrow>
   edges sim items t ((i, j) # ps) = insert (fst (items ! i), fst (items ! j)) (edges sim items t ps)"
  by (simp add: edges_def matched_def)

lemma edges_Cons_nomatch:
  "sim (snd (items ! i)) (snd (items ! j)) = Inr sc \<Longrightarrow> \<not> t \<le> sc \<Longrightarrow>
   edges sim items t ((i, j) # ps) = edges sim items t ps"
  by (simp add: edges_def matched_def)

lemma scan_append:
  "scan sim items t (ps @ qs) s =
     (case scan sim items t ps s of Inl e \<Rightarrow> Inl e | Inr s' \<Rightarrow> scan sim items t qs s')"
proof (induction ps arbitrary: s)
  case Nil
  show ?case by simp
next
  case (Cons p ps)
  obtain i j where p: "p = (i, j)" by (cases p)
  show ?case unfolding p by (simp add: Cons.IH split: sum.splits)
qed

lemma scan_inv:
  assumes "reg_inv V E s"
    and "\<forall>(i, j) \<in> set ps. fst (items ! i) \<in> V \<and> fst (items ! j) \<in> V \<and>
           fst (items ! i) \<noteq> fst (items ! j)"
    and "scan sim items t ps s = Inr s'"
  shows "reg_inv V (E \<union> edges sim items t ps) s'"
  using assms
proof (induction ps arbitrary: s E)
  case Nil
  then show ?case by (simp add: edges_Nil)
next
  case (Cons p ps)
  obtain i j where p: "p = (i, j)" by (cases p)
  let ?x = "fst (items ! i)" and ?y = "fst (items ! j)"
  from Cons.prems(2) have xy: "?x \<in> V" "?y \<in> V" "?x \<noteq> ?y" by (simp_all add: p)
  from Cons.prems(2) have rest: "\<forall>(i, j) \<in> set ps. fst (items ! i) \<in> V \<and> fst (items ! j) \<in> V \<and>
           fst (items ! i) \<noteq> fst (items ! j)" by simp
  from Cons.prems(3) obtain sc where sc: "sim (snd (items ! i)) (snd (items ! j)) = Inr sc"
    by (cases "sim (snd (items ! i)) (snd (items ! j))") (simp_all add: p)
  show ?case
  proof (cases "t \<le> sc")
    case True
    from merge_pair_inv[OF Cons.prems(1) xy] obtain s1 where
      s1: "merge_pair ?x ?y s = Inr s1" "reg_inv V (insert (?x, ?y) E) s1" by fast
    from Cons.prems(3) have "scan sim items t ps s1 = Inr s'" by (simp add: p sc True s1(1))
    from Cons.IH[OF s1(2) rest this] show ?thesis
      by (simp add: p edges_Cons_match[of sim items i j, OF sc True])
  next
    case False
    from Cons.prems(3) have "scan sim items t ps s = Inr s'" by (simp add: p sc False)
    from Cons.IH[OF Cons.prems(1) rest this] show ?thesis
      by (simp add: p edges_Cons_nomatch[of sim items i j, OF sc False])
  qed
qed

lemma scan_total:
  assumes "\<forall>(i, j) \<in> set ps. \<exists>sc. sim (snd (items ! i)) (snd (items ! j)) = Inr sc"
  shows "\<exists>s'. scan sim items t ps s = Inr s'"
  using assms
proof (induction ps arbitrary: s)
  case Nil
  show ?case by simp
next
  case (Cons p ps)
  obtain i j where p: "p = (i, j)" by (cases p)
  from Cons.prems obtain sc where sc: "sim (snd (items ! i)) (snd (items ! j)) = Inr sc"
    by (auto simp: p)
  from Cons.prems have rest: "\<forall>(i, j) \<in> set ps. \<exists>sc. sim (snd (items ! i)) (snd (items ! j)) = Inr sc"
    by simp
  obtain s1 where s1: "merge_pair (fst (items ! i)) (fst (items ! j)) s = Inr s1"
    using merge_pair_total by fast
  show ?case using Cons.IH[OF rest, of s] Cons.IH[OF rest, of s1] by (simp add: p sc s1)
qed

lemma scan_scores:
  assumes "scan sim items t ps s = Inr s'" "(i, j) \<in> set ps"
  shows "\<exists>sc. sim (snd (items ! i)) (snd (items ! j)) = Inr sc"
  using assms
proof (induction ps arbitrary: s)
  case Nil
  then show ?case by simp
next
  case (Cons p ps)
  obtain i' j' where p: "p = (i', j')" by (cases p)
  from Cons.prems(1) obtain sc where sc: "sim (snd (items ! i')) (snd (items ! j')) = Inr sc"
    by (cases "sim (snd (items ! i')) (snd (items ! j'))") (simp_all add: p)
  show ?case
  proof (cases "(i, j) = (i', j')")
    case True
    then show ?thesis using sc by simp
  next
    case False
    with Cons.prems(2) have mem: "(i, j) \<in> set ps" by (auto simp: p)
    obtain s1 where s1: "merge_pair (fst (items ! i')) (fst (items ! j')) s = Inr s1"
      using merge_pair_total by fast
    from Cons.prems(1) have "scan sim items t ps s1 = Inr s' \<or> scan sim items t ps s = Inr s'"
      by (simp add: p sc s1 split: if_splits)
    then show ?thesis using Cons.IH[OF _ mem] by fast
  qed
qed

lemma scan_error:
  assumes "scan sim items t ps s = Inl e"
  shows "\<exists>(i, j) \<in> set ps. sim (snd (items ! i)) (snd (items ! j)) = Inl e"
  using assms
proof (induction ps arbitrary: s)
  case Nil
  then show ?case by simp
next
  case (Cons p ps)
  obtain i j where p: "p = (i, j)" by (cases p)
  obtain s1 where s1: "merge_pair (fst (items ! i)) (fst (items ! j)) s = Inr s1"
    using merge_pair_total by fast
  show ?case
  proof (cases "sim (snd (items ! i)) (snd (items ! j))")
    case (Inl e')
    with Cons.prems have "e' = e" by (simp add: p)
    with Inl show ?thesis by (simp add: p)
  next
    case (Inr sc)
    with Cons.prems have "scan sim items t ps s1 = Inl e \<or> scan sim items t ps s = Inl e"
      by (simp add: p s1 split: if_splits)
    then have "\<exists>(i, j) \<in> set ps. sim (snd (items ! i)) (snd (items ! j)) = Inl e"
      using Cons.IH by fast
    then show ?thesis by auto
  qed
qed

lemma in_pairs: "(i, j) \<in> set (pairs n) \<longleftrightarrow> i < j \<and> j < n"
  by (auto simp: pairs_def image_iff)

lemma set_pairs: "set (pairs n) = {(i, j). i < j \<and> j < n}"
  using in_pairs by auto

lemma conn_empty: "conn {} = Id"
  by (simp add: conn_def)

lemma reg_inv_initial: "reg_inv V {} initial_state"
  by (rule reg_invI[where cl = "[]" and n = 0]) (simp_all add: initial_state_def conn_empty)

lemma pairs_4: "pairs 4 = [(0, 1), (0, 2), (0, 3), (1, 2), (1, 3), (2, 3)]"
  by code_simp

lemma scenario_run:
  "compare_embeddings scenario_sim scenario_items (6 / 10) =
     Inr [(0, {''a.npy'', ''b.npy'', ''c.npy''})]"
  by code_simp

lemma scenario_state_3:
  "state_after scenario_sim scenario_items (6 / 10) 4 =
     Inr \<lparr>clusters = [(0, {''a.npy'', ''b.npy'', ''c.npy''})], next_cluster_id = 1\<rparr>"
  by code_simp

lemma compare_embeddings_state_after:
  assumes "length (pairs (length items)) \<le> m"
  shows "compare_embeddings sim items t =
     (case state_after sim items t m of Inl e \<Rightarrow> Inl e | Inr s \<Rightarrow> Inr (clusters s))"
  using assms by (simp add: compare_embeddings_def state_after_def)

lemma names_of_pairs:
  assumes "distinct (map fst items)"
  shows "\<forall>(i, j) \<in> set (take m (pairs (length items))).
     fst (items ! i) \<in> fst ` set items \<and> fst (items ! j) \<in> fst ` set items \<and>
     fst (items ! i) \<noteq> fst (items ! j)"
proof -
  have "fst (items ! i) \<in> fst ` set items \<and> fst (items ! j) \<in> fst ` set items \<and>
     fst (items ! i) \<noteq> fst (items ! j)" if "(i, j) \<in> set (take m (pairs (length items)))" for i j
  proof -
    from that have "(i, j) \<in> set (pairs (length items))" by (rule in_set_takeD)
    then have ij: "i < j" "j < length items" by (simp_all add: in_pairs)
    then have i: "i < length items" by simp
    have "(map fst items ! i = map fst items ! j) = (i = j)"
      by (rule nth_eq_iff_index_eq[OF assms]) (simp_all add: i ij)
    then have "fst (items ! i) \<noteq> fst (items ! j)" using ij i by simp
    then show ?thesis using ij(2) i by simp
  qed
  then show ?thesis by fast
qed

lemma state_after_inv:
  assumes "distinct (map fst items)" "state_after sim items t m = Inr s"
  shows "reg_inv (fst ` set items) (edges sim items t (take m (pairs (length items)))) s"
  using scan_inv[OF reg_inv_initial names_of_pairs[OF assms(1)] assms(2)[unfolded state_after_def]]
  by simp

lemma compare_embeddings_inv:
  assumes "distinct (map fst items)" "compare_embeddings sim items t = Inr r"
  shows "\<exists>s. clusters s = r \<and> reg_inv (fst ` set items) (similar sim items t) s"
proof -
  let ?m = "length (pairs (length items))"
  from assms(2) obtain s where s: "state_after sim items t ?m = Inr s" "r = clusters s"
    by (auto simp: compare_embeddings_state_after[of items ?m] split: sum.splits)
  from state_after_inv[OF assms(1) s(1)] show ?thesis using s(2) by (auto simp: similar_def)
qed

lemma compare_embeddings_total:
  assumes "\<forall>i j. i < j \<and> j < length items \<longrightarrow>
     (\<exists>sc. sim (snd (items ! i)) (snd (items ! j)) = Inr sc)"
  shows "\<exists>r. compare_embeddings sim items t = Inr r"
proof -
  have "\<forall>(i, j) \<in> set (pairs (length items)). \<exists>sc. sim (snd (items ! i)) (snd (items ! j)) = Inr sc"
    using assms by (auto simp: in_pairs)
  from scan_total[OF this] obtain s' where
    "scan sim items t (pairs (length items)) initial_state = Inr s'" by fast
  then show ?thesis by (simp add: compare_embeddings_def)
qed

text \<open>
  C10: every cluster of the registry has at least two members, after any number \<open>m\<close> of
  scanned pairs and hence in the registry that is returned: a cluster is created with the
  two different names of a pair, and adding a name or merging two clusters only grows it.
\<close>

theorem clusters_have_two_members:
  assumes "distinct (map fst items)" and "state_after sim items threshold m = Inr s"
  shows "(\<forall>(k, v) \<in> set (clusters s). finite v \<and> 2 \<le> card v) \<and>
    (length (pairs (length items)) \<le> m \<longrightarrow>
       compare_embeddings sim items threshold = Inr (clusters s))"
proof -
  note inv = state_after_inv[OF assms]
  have "finite v \<and> 2 \<le> card v" if "(k, v) \<in> set (clusters s)" for k v
    using reg_invD(2)[OF inv that] by simp
  then have "\<forall>(k, v) \<in> set (clusters s). finite v \<and> 2 \<le> card v" by fast
  then show ?thesis using compare_embeddings_state_after[of items m sim threshold] assms(2)
    by simp
qed

theorem clusters_have_two_members_witness:
  "distinct (map fst scenario_items) \<and>
   state_after scenario_sim scenario_items (6 / 10) 4 =
     Inr \<lparr>clusters = [(0, {''a.npy'', ''b.npy'', ''c.npy''})], next_cluster_id = 1\<rparr> \<and>
   finite {''a.npy'', ''b.npy'', ''c.npy''} \<and> 2 \<le> card {''a.npy'', ''b.npy'', ''c.npy''}"
proof -
  have d: "distinct (map fst scenario_items)" by (simp add: scenario_items_def)
  from clusters_have_two_members[OF d scenario_state_3] d scenario_state_3
  show ?thesis by simp
qed

end
